theory Spec2Isabelle
  imports
    Main
    "HOL-Library.Char_ord"
    "HOL-Library.List_Lexorder"
    "HOL-Library.Sublist"
    "HOL-Library.Multiset"
begin

section \<open>Python values the program handles\<close>

text \<open>
  The program is the single script \<^verbatim>\<open>print-file-content.py\<close>. Its exceptions are
  values here: the class of the exception and the text that \<^verbatim>\<open>str(e)\<close> gives.
\<close>

datatype exn_kind =
    UnicodeDecodeError
  | IsADirectoryError
  | FileNotFoundError
  | PermissionError
  | OSError
  | ReError

datatype exn = Exn exn_kind string

fun exn_kind_of :: "exn \<Rightarrow> exn_kind" where
  "exn_kind_of (Exn k m) = k"

fun exn_message :: "exn \<Rightarrow> string" where
  "exn_message (Exn k m) = m"

definition BS :: char where
  "BS = CHR 0x5C"

definition newline :: char where
  "newline = CHR 0x0A"

section \<open>Regular expressions: \<^verbatim>\<open>re.match\<close>\<close>

text \<open>
  \<^verbatim>\<open>re.match(pattern, string)\<close> compiles the pattern and looks for a match that starts at
  the first character of the string. The fragment of the pattern language modelled is
  the one the script's patterns are written in: literal characters, a backslash before a
  character that is neither a letter nor a digit, \<^verbatim>\<open>.\<close> (any character but a newline),
  \<^verbatim>\<open>^\<close>, \<^verbatim>\<open>$\<close> (the end of the string, or just before a newline that ends it),
  groups in parentheses, and the postfix operators \<^verbatim>\<open>*\<close> and \<^verbatim>\<open>?\<close>.
  \<open>re_compile\<close> gives \<open>None\<close> for a pattern that Python rejects with \<^verbatim>\<open>re.error\<close>
  (an unbalanced parenthesis, nothing to repeat, a repeated repeat, a trailing backslash)
  and also for a pattern outside this fragment.
\<close>

datatype regex = Lit char | Any | Bol | Eol | Star regex | Opt regex | Seq regex regex | Eps

fun repeatable :: "regex \<Rightarrow> bool" where
  "repeatable (Star r) = False"
| "repeatable (Opt r) = False"
| "repeatable Bol = False"
| "repeatable Eol = False"
| "repeatable r = True"

definition is_alnum :: "char \<Rightarrow> bool" where
  "is_alnum c = (let n = of_char c :: nat in
     (48 \<le> n \<and> n \<le> 57) \<or> (65 \<le> n \<and> n \<le> 90) \<or> (97 \<le> n \<and> n \<le> 122))"

text \<open>The items of a sequence are collected in reverse; \<open>group\<close> puts them in order.\<close>

definition group :: "regex list \<Rightarrow> regex" where
  "group cur = foldr Seq (rev cur) Eps"

fun re_parse :: "string \<Rightarrow> regex list \<Rightarrow> regex list list \<Rightarrow> regex option" where
  "re_parse [] cur stack = (if stack = [] then Some (group cur) else None)"
| "re_parse (c # cs) cur stack =
    (if c = BS then
       (case cs of
          [] \<Rightarrow> None
        | d # ds \<Rightarrow> if is_alnum d then None else re_parse ds (Lit d # cur) stack)
     else if c = CHR ''.'' then re_parse cs (Any # cur) stack
     else if c = CHR ''^'' then re_parse cs (Bol # cur) stack
     else if c = CHR ''$'' then re_parse cs (Eol # cur) stack
     else if c = CHR ''('' then re_parse cs [] (cur # stack)
     else if c = CHR '')'' then
       (case stack of
          [] \<Rightarrow> None
        | outer # stack' \<Rightarrow> re_parse cs (group cur # outer) stack')
     else if c = CHR ''*'' then
       (case cur of
          [] \<Rightarrow> None
        | a # as \<Rightarrow> if repeatable a then re_parse cs (Star a # as) stack else None)
     else if c = CHR ''?'' then
       (case cur of
          [] \<Rightarrow> None
        | a # as \<Rightarrow> if repeatable a then re_parse cs (Opt a # as) stack else None)
     else if c \<in> set ''[{|+'' then None
     else re_parse cs (Lit c # cur) stack)"

definition re_compile :: "string \<Rightarrow> regex option" where
  "re_compile pattern = re_parse pattern [] []"

text \<open>
  \<open>residuals n r s\<close> lists what can remain of \<open>s\<close> after \<open>r\<close> has matched a prefix of
  it; \<open>n\<close> is the length of the whole string, so that \<open>length s = n\<close> holds at its
  start only. A starred expression is iterated as long as each round consumes a
  character, which the length of \<open>s\<close> bounds.
\<close>

fun star_iter :: "(string \<Rightarrow> string list) \<Rightarrow> nat \<Rightarrow> string \<Rightarrow> string list" where
  "star_iter f 0 s = [s]"
| "star_iter f (Suc k) s =
     s # concat (map (star_iter f k) (filter (\<lambda>t. length t < length s) (f s)))"

fun residuals :: "nat \<Rightarrow> regex \<Rightarrow> string \<Rightarrow> string list" where
  "residuals n (Lit c) s = (case s of [] \<Rightarrow> [] | x # xs \<Rightarrow> if x = c then [xs] else [])"
| "residuals n Any s = (case s of [] \<Rightarrow> [] | x # xs \<Rightarrow> if x \<noteq> newline then [xs] else [])"
| "residuals n Bol s = (if length s = n then [s] else [])"
| "residuals n Eol s = (if s = [] \<or> s = [newline] then [s] else [])"
| "residuals n (Star r) s = star_iter (residuals n r) (length s) s"
| "residuals n (Opt r) s = residuals n r s @ [s]"
| "residuals n (Seq r1 r2) s = concat (map (residuals n r2) (residuals n r1 s))"
| "residuals n Eps s = [s]"

definition re_match :: "string \<Rightarrow> string \<Rightarrow> exn + bool" where
  "re_match pattern s =
     (case re_compile pattern of
        None \<Rightarrow> Inl (Exn ReError pattern)
      | Some r \<Rightarrow> Inr (residuals (length s) r s \<noteq> []))"

section \<open>Paths: \<^verbatim>\<open>os.path\<close> on POSIX\<close>

text \<open>
  What the script reads from its process: the working directory that
  \<^verbatim>\<open>os.path.abspath\<close> resolves relative paths against, the first component of
  \<^verbatim>\<open>mimetypes.guess_type\<close>, and the usage text that \<^verbatim>\<open>parser.print_help()\<close> prints.
\<close>

record env =
  cwd :: string
  guess_type :: "string \<Rightarrow> string option"
  help_text :: string

text \<open>A process for the worked examples: it runs in \<^verbatim>\<open>/home/u\<close>.\<close>

definition example_env :: env where
  "example_env =
     \<lparr>cwd = ''/home/u'',
      guess_type = (\<lambda>p. if suffix ''.png'' p then Some ''image/png'' else None),
      help_text = ''usage: print-file-content.py [-h] [folder_path]''\<rparr>"

definition os_path_join :: "string \<Rightarrow> string \<Rightarrow> string" where
  "os_path_join a b =
     (if prefix ''/'' b then b
      else if a = [] \<or> suffix ''/'' a then a @ b
      else a @ ''/'' @ b)"

definition os_path_basename :: "string \<Rightarrow> string" where
  "os_path_basename p = rev (takeWhile (\<lambda>c. c \<noteq> CHR ''/'') (rev p))"

fun split_sep :: "string \<Rightarrow> string list" where
  "split_sep [] = [[]]"
| "split_sep (c # cs) =
     (if c = CHR ''/'' then [] # split_sep cs
      else (case split_sep cs of [] \<Rightarrow> [[c]] | w # ws \<Rightarrow> (c # w) # ws))"

fun join_sep :: "string list \<Rightarrow> string" where
  "join_sep [] = []"
| "join_sep [w] = w"
| "join_sep (w # ws) = w @ ''/'' @ join_sep ws"

fun norm_comps :: "bool \<Rightarrow> string list \<Rightarrow> string list \<Rightarrow> string list" where
  "norm_comps initial_slashes [] new_comps = new_comps"
| "norm_comps initial_slashes (part # comps) new_comps =
     (if part = [] \<or> part = ''.'' then norm_comps initial_slashes comps new_comps
      else if part \<noteq> ''..'' \<or> (\<not> initial_slashes \<and> new_comps = [])
              \<or> (new_comps \<noteq> [] \<and> last new_comps = ''..'')
        then norm_comps initial_slashes comps (new_comps @ [part])
      else if new_comps \<noteq> [] then norm_comps initial_slashes comps (butlast new_comps)
      else norm_comps initial_slashes comps new_comps)"

definition os_path_normpath :: "string \<Rightarrow> string" where
  "os_path_normpath path =
     (if path = [] then ''.''
      else
        let initial_slashes =
              (if prefix ''/'' path
               then (if prefix ''//'' path \<and> \<not> prefix ''///'' path then 2 else 1)
               else (0::nat));
            comps = norm_comps (0 < initial_slashes) (split_sep path) [];
            p = replicate initial_slashes CHR ''/'' @ join_sep comps
        in if p = [] then ''.'' else p)"

definition os_path_abspath :: "env \<Rightarrow> string \<Rightarrow> string" where
  "os_path_abspath e path =
     os_path_normpath (if prefix ''/'' path then path else os_path_join (cwd e) path)"

section \<open>The filter\<close>

definition ignore_patterns :: "string list" where
  "ignore_patterns =
    [''.*'' @ BS # ''.git(ignore)?$'',
     ''.*'' @ BS # ''.ipynb$'',
     ''^LICENSE$'',
     BS # ''.env$'',
     ''__pycache__$'',
     ''.*'' @ BS # ''.pyc$'',
     ''.*'' @ BS # ''.out$'',
     ''test-results'' @ BS # ''.json$'',
     ''.*'' @ BS # ''.sum$'' @ BS # ''.terraform'' @ BS # ''.lock'' @ BS # ''.hcl$'',
     BS # ''.terraform*'']"

text \<open>
  The ninth entry is what Python makes of lines 16 and 17 of the script: no comma stands
  between the two string literals, so they are one string.
\<close>

definition fused_sum_pattern :: string where
  "fused_sum_pattern =
     ''.*'' @ BS # ''.sum$'' @ BS # ''.terraform'' @ BS # ''.lock'' @ BS # ''.hcl$''"

definition blacklist :: "string list" where
  "blacklist = [''.git'', ''node_modules'', ''__pycache__'']"

text \<open>
  \<^verbatim>\<open>any(re.match(pattern, name) or re.match(pattern, path) for pattern in patterns)\<close>:
  the patterns are tried in order, the name before the path, and the first match ends
  the search; a pattern that does not compile raises when it is reached.
\<close>

fun any_pattern_matches :: "string list \<Rightarrow> string \<Rightarrow> string \<Rightarrow> exn + bool" where
  "any_pattern_matches [] name path = Inr False"
| "any_pattern_matches (pattern # patterns) name path =
     (case re_match pattern name of
        Inl e \<Rightarrow> Inl e
      | Inr m \<Rightarrow>
          if m then Inr True
          else (case re_match pattern path of
                  Inl e \<Rightarrow> Inl e
                | Inr m' \<Rightarrow> if m' then Inr True else any_pattern_matches patterns name path))"

text \<open>The loop over the blacklist (lines 39 to 42).\<close>

definition blacklisted :: "env \<Rightarrow> string \<Rightarrow> string list \<Rightarrow> bool" where
  "blacklisted e path black =
     (let abs_path = os_path_abspath e path
      in list_ex (\<lambda>bl. os_path_basename abs_path = bl \<or> prefix (os_path_abspath e bl) abs_path) black)"

definition should_ignore :: "env \<Rightarrow> string \<Rightarrow> string \<Rightarrow> string list \<Rightarrow> string list \<Rightarrow> exn + bool" where
  "should_ignore e name path patterns black =
     (case any_pattern_matches patterns name path of
        Inl ex \<Rightarrow> Inl ex
      | Inr m \<Rightarrow> if m then Inr True else Inr (blacklisted e path black))"

section \<open>The file system\<close>

text \<open>
  The directory tree the script walks, as it stands during one run. A \<open>File\<close> is
  anything that is not a directory; it carries what opening it with
  \<^verbatim>\<open>open(path, 'r', encoding='utf-8')\<close> and reading it to the end gives: the decoded text
  (newlines already translated, as \<^verbatim>\<open>f.read()\<close> returns it) or the exception raised on the
  way. A path that does not exist is a \<open>File\<close> that raises \<open>FileNotFoundError\<close>.
  A \<open>Dir\<close> carries its entries in the order \<^verbatim>\<open>os.listdir\<close> and \<^verbatim>\<open>os.scandir\<close> report
  them, which is arbitrary; a \<open>Dir_unlistable\<close> is a directory whose listing raises.
  Each function below takes the path it was called with together with the node found
  there. Symbolic links to directories are not modelled, and writing to standard output
  never fails.
\<close>

datatype node =
    File "exn + string"
  | Dir "(string \<times> node) list"
  | Dir_unlistable exn

fun os_path_isdir :: "node \<Rightarrow> bool" where
  "os_path_isdir (File r) = False"
| "os_path_isdir (Dir entries) = True"
| "os_path_isdir (Dir_unlistable ex) = True"

text \<open>Opening a directory for reading raises \<open>IsADirectoryError\<close>.\<close>

definition is_a_directory :: "string \<Rightarrow> exn" where
  "is_a_directory filepath =
     Exn IsADirectoryError (''[Errno 21] Is a directory: '' @ [CHR 0x27] @ filepath @ [CHR 0x27])"

fun open_read :: "node \<Rightarrow> string \<Rightarrow> exn + string" where
  "open_read (File r) filepath = r"
| "open_read (Dir entries) filepath = Inl (is_a_directory filepath)"
| "open_read (Dir_unlistable ex) filepath = Inl (is_a_directory filepath)"

section \<open>The line counter\<close>

text \<open>
  Iterating over a text file yields its lines: each ends with its newline, and what
  follows the last newline is a line of its own when it is not empty.
\<close>

fun readlines :: "string \<Rightarrow> string list" where
  "readlines [] = []"
| "readlines (c # cs) =
     (if c = newline then [c] # readlines cs
      else (case readlines cs of [] \<Rightarrow> [[c]] | l # ls \<Rightarrow> (c # l) # ls))"

datatype count_or_type = Count int | Type_name string

definition count_lines_or_get_type :: "env \<Rightarrow> node \<Rightarrow> string \<Rightarrow> exn + count_or_type" where
  "count_lines_or_get_type e f filepath =
     (case open_read f filepath of
        Inr text \<Rightarrow> Inr (Count (sum_list (map (\<lambda>l. 1) (readlines text))))
      | Inl ex \<Rightarrow>
          if exn_kind_of ex = UnicodeDecodeError \<or> exn_kind_of ex = IsADirectoryError
          then Inr (Type_name
                 (case guess_type e filepath of
                    None \<Rightarrow> ''unknown file type''
                  | Some file_type \<Rightarrow> if file_type = [] then ''unknown file type'' else file_type))
          else Inl ex)"

section \<open>The tree renderer\<close>

text \<open>\<^verbatim>\<open>str\<close> of an integer, as the f-strings of the script format it.\<close>

function str_nat :: "nat \<Rightarrow> string" where
  "str_nat n = (if n < 10 then [char_of (48 + n)] else str_nat (n div 10) @ [char_of (48 + n mod 10)])"
  by pat_completeness auto
termination
  by (relation "measure id") auto

definition str_int :: "int \<Rightarrow> string" where
  "str_int i = (if i < 0 then CHR ''-'' # str_nat (nat (- i)) else str_nat (nat i))"

text \<open>
  The connectors, as the bytes of their UTF-8 encoding: \<open>tee\<close> is the branch
  connector (U+251C U+2500 U+2500 and a space), \<open>corner\<close> the last one (U+2514 first),
  \<open>bar_ext\<close> the vertical bar U+2502 and three spaces.
\<close>

definition tee :: string where
  "tee = [CHR 0xE2, CHR 0x94, CHR 0x9C, CHR 0xE2, CHR 0x94, CHR 0x80, CHR 0xE2, CHR 0x94, CHR 0x80, CHR '' '']"

definition corner :: string where
  "corner = [CHR 0xE2, CHR 0x94, CHR 0x94, CHR 0xE2, CHR 0x94, CHR 0x80, CHR 0xE2, CHR 0x94, CHR 0x80, CHR '' '']"

definition bar_ext :: string where
  "bar_ext = [CHR 0xE2, CHR 0x94, CHR 0x82] @ ''   ''"

definition blank_ext :: string where
  "blank_ext = ''    ''"

text \<open>\<^verbatim>\<open>ignore_patterns or []\<close>.\<close>

definition or_empty :: "string list option \<Rightarrow> string list" where
  "or_empty patterns = (case patterns of None \<Rightarrow> [] | Some ps \<Rightarrow> ps)"

text \<open>
  The list comprehension of lines 65 to 68 (and of lines 99 to 102): the entries are
  tested in order, and an exception of \<open>should_ignore\<close> ends the comprehension.
\<close>

fun filter_items :: "env \<Rightarrow> string \<Rightarrow> string list \<Rightarrow> (string \<times> node) list \<Rightarrow> exn + (string \<times> node) list" where
  "filter_items e folder_path patterns [] = Inr []"
| "filter_items e folder_path patterns ((item, child) # rest) =
     (case should_ignore e item (os_path_join folder_path item) patterns blacklist of
        Inl ex \<Rightarrow> Inl ex
      | Inr ignored \<Rightarrow>
          (case filter_items e folder_path patterns rest of
             Inl ex \<Rightarrow> Inl ex
           | Inr items \<Rightarrow> Inr (if ignored then items else (item, child) # items)))"

text \<open>The recursion of the renderer ends: the facts its termination proof needs.\<close>

lemma sum_zip_le:
  "sum_list (map (\<lambda>(p, i, c). Suc (size c)) (zip ps xs))
     \<le> sum_list (map (\<lambda>(i, c). Suc (size (c::node))) xs)"
proof (induction xs arbitrary: ps)
  case Nil
  then show ?case by simp
next
  case (Cons x xs)
  then show ?case
    by (cases ps) (auto simp: le_SucI trans_le_add2 split: prod.splits)
qed

lemma sum_filter_items_le:
  "filter_items e fp ps xs = Inr items \<Longrightarrow>
   sum_list (map (\<lambda>(i, c). Suc (size (c::node))) items)
     \<le> sum_list (map (\<lambda>(i, c). Suc (size c)) xs)"
proof (induction xs arbitrary: items)
  case Nil
  then show ?case by simp
next
  case (Cons x xs)
  then show ?case
    by (cases x) (auto split: sum.splits if_splits)
qed

lemma sum_sort_key_eq:
  "sum_list (map g (sort_key k xs)) = sum_list (map (g :: 'a \<Rightarrow> 'b::comm_monoid_add) xs)"
proof -
  have "sum_list (map g (sort_key k xs)) = sum_mset (image_mset g (mset (sort_key k xs)))"
    by (metis mset_map sum_mset_sum_list)
  also have "\<dots> = sum_mset (image_mset g (mset xs))"
    by simp
  also have "\<dots> = sum_list (map g xs)"
    by (metis mset_map sum_mset_sum_list)
  finally show ?thesis .
qed

lemma sum_children_less:
  "sum_list (map (\<lambda>(i, c). Suc (size (c::node))) entries) < size (Dir entries)"
proof -
  have "sum_list (map (\<lambda>(i, c). Suc (size (c::node))) xs) \<le> size_list (size_prod (\<lambda>x. 0) size) xs"
    for xs :: "(string \<times> node) list"
    by (induction xs) auto
  then show ?thesis
    by (simp add: less_Suc_eq_le)
qed

lemma items_measure:
  assumes "filter_items e fp ps (sort_key fst entries) = Inr items"
  shows "sum_list (map (\<lambda>(p, i, c). Suc (size c)) (zip pts items)) < size (Dir entries)"
proof -
  have "sum_list (map (\<lambda>(p, i, c). Suc (size c)) (zip pts items))
      \<le> sum_list (map (\<lambda>(i, c). Suc (size c)) items)"
    by (rule sum_zip_le)
  also have "\<dots> \<le> sum_list (map (\<lambda>(i, c). Suc (size c)) (sort_key fst entries))"
    using assms by (rule sum_filter_items_le)
  also have "\<dots> = sum_list (map (\<lambda>(i, c). Suc (size c)) entries)"
    by (rule sum_sort_key_eq)
  also have "\<dots> < size (Dir entries)"
    by (rule sum_children_less)
  finally show ?thesis .
qed

text \<open>
  \<open>display_tree_structure\<close> returns what it printed, one string for each call of
  \<^verbatim>\<open>print\<close>, and either the exception that ended it or the total it returns.
  \<open>display_items\<close> is the loop of lines 73 to 91 over \<^verbatim>\<open>zip(pointers, items)\<close>, with
  \<^verbatim>\<open>total_lines\<close> as its accumulator.
\<close>

function display_tree_structure ::
    "env \<Rightarrow> node \<Rightarrow> string \<Rightarrow> string list option \<Rightarrow> string \<Rightarrow> bool \<Rightarrow> string list \<times> (exn + int)"
  and display_items ::
    "env \<Rightarrow> string \<Rightarrow> string list option \<Rightarrow> string \<Rightarrow> bool \<Rightarrow> (string \<times> string \<times> node) list \<Rightarrow> int
       \<Rightarrow> string list \<times> (exn + int)"
where
  "display_tree_structure e tree folder_path patterns pre show_line_counts =
     (case tree of
        File r \<Rightarrow> ([], Inr 0)
      | Dir_unlistable ex \<Rightarrow> ([], Inl ex)
      | Dir entries \<Rightarrow>
          (case filter_items e folder_path (or_empty patterns) (sort_key fst entries) of
             Inl ex \<Rightarrow> ([], Inl ex)
           | Inr items \<Rightarrow>
               display_items e folder_path patterns pre show_line_counts
                 (zip (replicate (length items - 1) tee @ [corner]) items) 0))"
| "display_items e folder_path patterns pre show_line_counts [] total_lines = ([], Inr total_lines)"
| "display_items e folder_path patterns pre show_line_counts ((pointer, item, child) # rest) total_lines =
     (let path = os_path_join folder_path item in
      if os_path_isdir child then
        (let line = pre @ pointer @ item @ ''/'';
             extension = (if pointer = tee then bar_ext else blank_ext);
             (out, r) = display_tree_structure e child path patterns (pre @ extension) show_line_counts
         in case r of
              Inl ex \<Rightarrow> (line # out, Inl ex)
            | Inr n \<Rightarrow>
                (let (out', r') = display_items e folder_path patterns pre show_line_counts rest (total_lines + n)
                 in (line # out @ out', r')))
      else if show_line_counts then
        (case count_lines_or_get_type e child path of
           Inl ex \<Rightarrow> ([], Inl ex)
         | Inr (Count line_count) \<Rightarrow>
             (let line = pre @ pointer @ item @ '' ('' @ str_int line_count @ '' lines)'';
                  (out', r') = display_items e folder_path patterns pre show_line_counts rest (total_lines + line_count)
              in (line # out', r'))
         | Inr (Type_name file_type) \<Rightarrow>
             (let line = pre @ pointer @ item @ '' ('' @ file_type @ '')'';
                  (out', r') = display_items e folder_path patterns pre show_line_counts rest total_lines
              in (line # out', r')))
      else
        (let line = pre @ pointer @ item;
             (out', r') = display_items e folder_path patterns pre show_line_counts rest total_lines
         in (line # out', r')))"
  by pat_completeness auto
termination
proof (relation "measure (\<lambda>x. case x of
      Inl (e, tree, fp, pats, pre, sh) \<Rightarrow> 2 * Suc (size tree)
    | Inr (e, fp, pats, pre, sh, l, acc) \<Rightarrow> 2 * sum_list (map (\<lambda>(p, i, c). Suc (size c)) l) + 1)",
    goal_cases)
  case 1
  show ?case by simp
next
  case (2 e tree folder_path patterns pre show_line_counts entries items)
  have "sum_list (map (\<lambda>(p, i, c). Suc (size c)) (zip (replicate (length items - 1) tee @ [corner]) items))
      < size (Dir entries)"
    using 2(2) by (rule items_measure)
  with 2(1) show ?case by simp
qed simp_all

declare display_tree_structure.simps [simp del]

section \<open>The content dumper\<close>

text \<open>
  The loop of lines 104 to 114 over the files of one directory. The handler of line 113
  catches every exception of the read and prints the error line.
\<close>

fun dump_files :: "env \<Rightarrow> string \<Rightarrow> string list option \<Rightarrow> (string \<times> node) list \<Rightarrow> string list \<times> exn option" where
  "dump_files e root patterns [] = ([], None)"
| "dump_files e root patterns ((filename, f) # rest) =
     (case should_ignore e filename (os_path_join root filename) (or_empty patterns) blacklist of
        Inl ex \<Rightarrow> ([], Some ex)
      | Inr ignored \<Rightarrow>
          if ignored then dump_files e root patterns rest
          else
            (let filepath = os_path_join root filename;
                 line = (case open_read f filepath of
                           Inr content \<Rightarrow> filepath @ '':'' @ [newline] @ content
                         | Inl ex \<Rightarrow> ''Error reading '' @ filepath @ '': '' @ exn_message ex);
                 (out, r) = dump_files e root patterns rest
             in (line # out, r)))"

lemma sum_dirs_measure:
  assumes "filter_items e fp ps (filter (\<lambda>(d, c). os_path_isdir c) entries) = Inr dirs"
  shows "sum_list (map (\<lambda>(i, c). Suc (size c)) dirs) < size (Dir entries)"
proof -
  have "sum_list (map (\<lambda>(i, c). Suc (size c)) dirs)
      \<le> sum_list (map (\<lambda>(i, c). Suc (size c)) (filter (\<lambda>(d, c). os_path_isdir c) entries))"
    using assms by (rule sum_filter_items_le)
  also have "\<dots> \<le> sum_list (map (\<lambda>(i, c). Suc (size c)) entries)"
    by (rule sum_list_filter_le_nat)
  also have "\<dots> < size (Dir entries)"
    by (rule sum_children_less)
  finally show ?thesis .
qed

text \<open>
  \<^verbatim>\<open>os.walk\<close> lists a directory, hands its directories and its other entries to the
  loop body, and then walks the directories the body has left in the list, in order. A
  directory that cannot be listed yields nothing: \<^verbatim>\<open>os.walk\<close> ignores the error.
  \<open>print_file_contents\<close> returns what it printed and the exception that ended it, if any.
\<close>

function print_file_contents ::
    "env \<Rightarrow> node \<Rightarrow> string \<Rightarrow> string list option \<Rightarrow> string list \<times> exn option"
  and walk_dirs ::
    "env \<Rightarrow> string \<Rightarrow> string list option \<Rightarrow> (string \<times> node) list \<Rightarrow> string list \<times> exn option"
where
  "print_file_contents e tree root patterns =
     (case tree of
        File r \<Rightarrow> ([], None)
      | Dir_unlistable ex \<Rightarrow> ([], None)
      | Dir entries \<Rightarrow>
          (case filter_items e root (or_empty patterns) (filter (\<lambda>(d, c). os_path_isdir c) entries) of
             Inl ex \<Rightarrow> ([], Some ex)
           | Inr dirs \<Rightarrow>
               (case dump_files e root patterns (filter (\<lambda>(d, c). \<not> os_path_isdir c) entries) of
                  (out, Some ex) \<Rightarrow> (out, Some ex)
                | (out, None) \<Rightarrow>
                    (let (out', r) = walk_dirs e root patterns dirs in (out @ out', r)))))"
| "walk_dirs e root patterns [] = ([], None)"
| "walk_dirs e root patterns ((d, child) # rest) =
     (case print_file_contents e child (os_path_join root d) patterns of
        (out, Some ex) \<Rightarrow> (out, Some ex)
      | (out, None) \<Rightarrow>
          (let (out', r) = walk_dirs e root patterns rest in (out @ out', r)))"
  by pat_completeness auto
termination
proof (relation "measure (\<lambda>x. case x of
      Inl (e, tree, root, pats) \<Rightarrow> 2 * Suc (size tree)
    | Inr (e, root, pats, l) \<Rightarrow> 2 * sum_list (map (\<lambda>(i, c). Suc (size c)) l) + 1)",
    goal_cases)
  case 1
  show ?case by simp
next
  case (2 e tree root patterns entries dirs)
  have "sum_list (map (\<lambda>(i, c). Suc (size c)) dirs) < size (Dir entries)"
    using 2(2) by (rule sum_dirs_measure)
  with 2(1) show ?case by simp
qed simp_all

declare print_file_contents.simps [simp del]

section \<open>The entry point\<close>

text \<open>
  \<open>args\<close> is the namespace \<^verbatim>\<open>parser.parse_args()\<close> returns. \<open>main\<close> takes the node
  found at \<^verbatim>\<open>args.folder_path\<close> and returns what the script printed and how the process
  ended.
\<close>

record args =
  args_folder_path :: "string option"
  args_structure :: bool
  args_structure_all :: bool
  args_help_only :: bool

datatype outcome = Finished | Exit int | Raised exn

definition tree_header :: string where
  "tree_header = ''Directory structure (subject to ignore_patterns):'' @ [newline]"

definition tree_all_header :: string where
  "tree_all_header = ''Directory structure (no ignore_patterns applied):'' @ [newline]"

definition total_line :: "int \<Rightarrow> string" where
  "total_line total_lines = [newline] @ ''Total lines in readable files: '' @ str_int total_lines"

definition main :: "env \<Rightarrow> node \<Rightarrow> args \<Rightarrow> string list \<times> outcome" where
  "main e tree a =
     (if args_help_only a then ([help_text e], Exit 0)
      else if args_folder_path a = None \<or> args_folder_path a = Some [] then
        ([''Error: folder_path is required unless --help-only is used.'', help_text e], Exit 1)
      else if args_structure a \<and> args_structure_all a then
        ([''Error: Cannot use --structure and --structure-all at the same time.''], Exit 1)
      else if args_structure a then
        (case display_tree_structure e tree (the (args_folder_path a)) (Some ignore_patterns) [] True of
           (out, Inl ex) \<Rightarrow> (tree_header # out, Raised ex)
         | (out, Inr total_lines) \<Rightarrow> (tree_header # out @ [total_line total_lines], Finished))
      else if args_structure_all a then
        (case display_tree_structure e tree (the (args_folder_path a)) None [] True of
           (out, Inl ex) \<Rightarrow> (tree_all_header # out, Raised ex)
         | (out, Inr total_lines) \<Rightarrow> (tree_all_header # out @ [total_line total_lines], Finished))
      else
        (case display_tree_structure e tree (the (args_folder_path a)) (Some ignore_patterns) [] True of
           (out, Inl ex) \<Rightarrow> (tree_header # out, Raised ex)
         | (out, Inr total_lines) \<Rightarrow>
             (case print_file_contents e tree (the (args_folder_path a)) (Some ignore_patterns) of
                (out', Some ex) \<Rightarrow>
                  (tree_header # out @ [total_line total_lines, [newline] @ ''File contents:'' @ [newline]] @ out',
                   Raised ex)
              | (out', None) \<Rightarrow>
                  (tree_header # out @ [total_line total_lines, [newline] @ ''File contents:'' @ [newline]] @ out',
                   Finished))))"

section \<open>Reference definitions\<close>

text \<open>
  An entry is kept when the filter answers \<open>False\<close> for it. \<open>visible_files\<close> lists
  every file of the subtree that is kept and lies under kept directories only, with the
  path the script builds for it.
\<close>

definition kept :: "env \<Rightarrow> string list \<Rightarrow> string \<Rightarrow> string \<Rightarrow> bool" where
  "kept e patterns name path = (should_ignore e name path patterns blacklist = Inr False)"

fun visible_files :: "env \<Rightarrow> string list \<Rightarrow> string \<Rightarrow> node \<Rightarrow> (string \<times> node) list" where
  "visible_files e patterns folder_path (Dir entries) =
     concat (map (\<lambda>(name, child).
       if kept e patterns name (os_path_join folder_path name)
       then (if os_path_isdir child
             then visible_files e patterns (os_path_join folder_path name) child
             else [(os_path_join folder_path name, child)])
       else []) entries)"
| "visible_files e patterns folder_path (File r) = []"
| "visible_files e patterns folder_path (Dir_unlistable ex) = []"

text \<open>What a file adds to the total: its line count, and nothing when it has none.\<close>

definition count_value :: "env \<Rightarrow> string \<times> node \<Rightarrow> int" where
  "count_value e pf =
     (case count_lines_or_get_type e (snd pf) (fst pf) of
        Inr (Count n) \<Rightarrow> n
      | Inr (Type_name t) \<Rightarrow> 0
      | Inl ex \<Rightarrow> 0)"

definition line_total :: "env \<Rightarrow> string list \<Rightarrow> string \<Rightarrow> node \<Rightarrow> int" where
  "line_total e patterns folder_path tree =
     sum_list (map (count_value e) (visible_files e patterns folder_path tree))"

text \<open>What the dumper prints for one file: its path and content, or the error line.\<close>

definition dump_line :: "string \<times> node \<Rightarrow> string" where
  "dump_line pf =
     (case open_read (snd pf) (fst pf) of
        Inr content \<Rightarrow> fst pf @ '':'' @ [newline] @ content
      | Inl ex \<Rightarrow> ''Error reading '' @ fst pf @ '': '' @ exn_message ex)"

text \<open>\<open>prune\<close> deletes from a tree every entry for which the filter answers \<open>True\<close>.\<close>

fun prune :: "env \<Rightarrow> string list \<Rightarrow> string \<Rightarrow> node \<Rightarrow> node" where
  "prune e patterns folder_path (Dir entries) =
     Dir (concat (map (\<lambda>(name, child).
       if should_ignore e name (os_path_join folder_path name) patterns blacklist = Inr True
       then []
       else [(name, prune e patterns (os_path_join folder_path name) child)]) entries))"
| "prune e patterns folder_path (File r) = File r"
| "prune e patterns folder_path (Dir_unlistable ex) = Dir_unlistable ex"

text \<open>
  \<open>canon\<close> lists every directory of a tree in the order of its names. Two trees with
  the same \<open>canon\<close> are one state of the file system, listed in two orders.
\<close>

fun canon :: "node \<Rightarrow> node" where
  "canon (Dir entries) = Dir (sort_key fst (map (\<lambda>(name, child). (name, canon child)) entries))"
| "canon (File r) = File r"
| "canon (Dir_unlistable ex) = Dir_unlistable ex"

text \<open>
  A tree is \<open>readable\<close> when nothing the renderer reaches raises: every pattern test
  answers, every kept directory can be listed and every kept file can be counted.
\<close>

fun readable :: "env \<Rightarrow> string list \<Rightarrow> string \<Rightarrow> node \<Rightarrow> bool" where
  "readable e patterns folder_path (Dir entries) =
     list_all (\<lambda>(name, child).
       (case should_ignore e name (os_path_join folder_path name) patterns blacklist of
          Inl ex \<Rightarrow> False
        | Inr ignored \<Rightarrow>
            ignored \<or>
            (if os_path_isdir child then readable e patterns (os_path_join folder_path name) child
             else \<not> isl (count_lines_or_get_type e child (os_path_join folder_path name))))) entries"
| "readable e patterns folder_path (File r) = True"
| "readable e patterns folder_path (Dir_unlistable ex) = False"

text \<open>
  Two entries of the renderer's loop are rendered alike when they have the same pointer
  and name and are the same file, or directories that the renderer prints alike.
\<close>

definition same_rendering ::
    "env \<Rightarrow> string \<Rightarrow> string list option \<Rightarrow> bool \<Rightarrow> string \<times> string \<times> node \<Rightarrow> string \<times> string \<times> node \<Rightarrow> bool" where
  "same_rendering e fp pats sh x y =
     (case (x, y) of ((p, n, c), (p', n', c')) \<Rightarrow>
        p = p' \<and> n = n' \<and>
        (if os_path_isdir c
         then os_path_isdir c' \<and>
              (\<forall>pre. display_tree_structure e c (os_path_join fp n) pats pre sh
                   = display_tree_structure e c' (os_path_join fp n) pats pre sh)
         else c = c'))"

section \<open>Worked examples\<close>

text \<open>
  The directory of the specification's example, with an ignored \<^verbatim>\<open>.env\<close>, a blacklisted
  \<^verbatim>\<open>node_modules\<close> and a subdirectory; the same directory listed in another order; and
  a directory that holds a file and a subdirectory the user may not read.
\<close>

definition example_tree :: node where
  "example_tree =
     Dir [(''b.bin'', File (Inl (Exn UnicodeDecodeError ''invalid start byte''))),
          (''a.txt'', File (Inr (''one'' @ [newline] @ ''two'' @ [newline]))),
          (''.git'', Dir [(''config'', File (Inr ''x''))]),
          (''.env'', File (Inr (''KEY=1'' @ [newline]))),
          (''node_modules'', Dir [(''m.js'', File (Inr ''y''))]),
          (''src'', Dir [(''z.py'', File (Inr ''pass'')), (''m.py'', File (Inr (''import os'' @ [newline])))])]"

definition example_tree_relisted :: node where
  "example_tree_relisted =
     Dir [(''src'', Dir [(''m.py'', File (Inr (''import os'' @ [newline]))), (''z.py'', File (Inr ''pass''))]),
          (''node_modules'', Dir [(''m.js'', File (Inr ''y''))]),
          (''.env'', File (Inr (''KEY=1'' @ [newline]))),
          (''a.txt'', File (Inr (''one'' @ [newline] @ ''two'' @ [newline]))),
          (''.git'', Dir [(''config'', File (Inr ''x''))]),
          (''b.bin'', File (Inl (Exn UnicodeDecodeError ''invalid start byte'')))]"

definition locked_tree :: node where
  "locked_tree =
     Dir [(''a.txt'', File (Inr (''one'' @ [newline] @ ''two'' @ [newline]))),
          (''keys'', Dir_unlistable (Exn PermissionError ''[Errno 13] Permission denied'')),
          (''secret.txt'', File (Inl (Exn PermissionError ''[Errno 13] Permission denied''))),
          (''z.txt'', File (Inr ''last''))]"

section \<open>Facts about the filter\<close>

lemma any_pattern_matches_none:
  "(\<And>p. p \<in> set ps \<Longrightarrow> re_match p name = Inr False \<and> re_match p path = Inr False)
   \<Longrightarrow> any_pattern_matches ps name path = Inr False"
  by (induction ps) simp_all

lemma residuals_dead_seq:
  "(\<And>t. residuals n r2 t = []) \<Longrightarrow> residuals n (Seq r1 r2) s = []"
  by simp

lemma residuals_eol_dot: "residuals n (Seq Eol (Seq (Lit CHR ''.'') r)) t = []"
  by (simp add: newline_def)

lemma fused_sum_pattern_shape:
  "\<exists>a b c d f r. re_compile fused_sum_pattern
     = Some (Seq a (Seq b (Seq c (Seq d (Seq f (Seq Eol (Seq (Lit CHR ''.'') r)))))))"
  by (simp add: fused_sum_pattern_def re_compile_def BS_def is_alnum_def group_def)

lemma fused_sum_pattern_never_matches: "re_match fused_sum_pattern s = Inr False"
proof -
  obtain a b c d f r where shape: "re_compile fused_sum_pattern
      = Some (Seq a (Seq b (Seq c (Seq d (Seq f (Seq Eol (Seq (Lit CHR ''.'') r)))))))"
    using fused_sum_pattern_shape by blast
  have "residuals n (Seq a (Seq b (Seq c (Seq d (Seq f (Seq Eol (Seq (Lit CHR ''.'') r))))))) t = []"
    for n t
    by (intro residuals_dead_seq residuals_eol_dot)
  with shape show ?thesis
    by (simp add: re_match_def)
qed

section \<open>Facts about the line counter\<close>

lemma readlines_empty_iff: "readlines s = [] \<longleftrightarrow> s = []"
  by (cases s) (auto split: list.splits)

lemma length_readlines:
  "length (readlines s) =
     count_list s newline + (if s = [] \<or> last s = newline then 0 else 1)"
proof (induction s)
  case Nil
  then show ?case by simp
next
  case (Cons c cs)
  show ?case
  proof (cases "cs = []")
    case True
    then show ?thesis by simp
  next
    case False
    then have "readlines cs \<noteq> []"
      by (simp add: readlines_empty_iff)
    then obtain l ls where "readlines cs = l # ls"
      by (cases "readlines cs") auto
    with Cons False show ?thesis
      by auto
  qed
qed

section \<open>Facts about the renderer\<close>

lemma filter_items_kept:
  "filter_items e fp ps xs = Inr items \<Longrightarrow>
   items = filter (\<lambda>(n, c). kept e ps n (os_path_join fp n)) xs"
proof (induction xs arbitrary: items)
  case Nil
  then show ?case by simp
next
  case (Cons x xs)
  then show ?case
    by (cases x) (auto simp: kept_def split: sum.splits if_splits)
qed

lemma filter_items_map:
  "filter_items e fp ps (map (\<lambda>(n, c). (n, g n c)) xs)
     = map_sum id (map (\<lambda>(n, c). (n, g n c))) (filter_items e fp ps xs)"
proof (induction xs)
  case Nil
  then show ?case by simp
next
  case (Cons x xs)
  then show ?case
    by (cases x) (auto split: sum.splits)
qed

lemma filter_items_drop_ignored:
  "filter_items e fp ps
     (filter (\<lambda>(n, c). should_ignore e n (os_path_join fp n) ps blacklist \<noteq> Inr True) xs)
   = filter_items e fp ps xs"
proof (induction xs)
  case Nil
  then show ?case by simp
next
  case (Cons x xs)
  then show ?case
    by (cases x) (auto split: sum.splits)
qed

lemma insort_key_map_fst:
  assumes "\<And>x. fst (h x) = fst x"
  shows "insort_key fst (h x) (map h ys) = map h (insort_key fst x ys)"
  by (induction ys) (simp_all add: assms)

lemma sort_key_map_fst:
  assumes "\<And>x. fst (h x) = fst x"
  shows "sort_key fst (map h xs) = map h (sort_key fst xs)"
  by (induction xs) (simp_all add: insort_key_map_fst [OF assms])

lemma concat_map_drop:
  "concat (map (\<lambda>x. if Q x then [] else [f x]) xs) = map f (filter (\<lambda>x. \<not> Q x) xs)"
  by (induction xs) simp_all

lemma display_items_cong:
  assumes "list_all2 (same_rendering e fp pats sh) items items'"
  shows "display_items e fp pats pre sh items acc = display_items e fp pats pre sh items' acc"
  using assms
proof (induction items items' arbitrary: acc rule: list_all2_induct)
  case Nil
  then show ?case by simp
next
  case (Cons x xs y ys)
  obtain p n c where x: "x = (p, n, c)" by (cases x) auto
  obtain p' n' c' where y: "y = (p', n', c')" by (cases y) auto
  from Cons.hyps(1) x y have pn: "p' = p" "n' = n"
    by (simp_all add: same_rendering_def)
  show ?case
  proof (cases "os_path_isdir c")
    case True
    with Cons.hyps(1) x y have d: "os_path_isdir c'"
      and eq: "\<And>pre. display_tree_structure e c (os_path_join fp n) pats pre sh
                   = display_tree_structure e c' (os_path_join fp n) pats pre sh"
      by (auto simp: same_rendering_def)
    show ?thesis
      unfolding x y pn
      by (simp only: display_items.simps Let_def True d eq Cons.IH if_True)
  next
    case False
    with Cons.hyps(1) x y have "c' = c"
      by (simp add: same_rendering_def)
    then show ?thesis
      unfolding x y pn
      by (simp only: display_items.simps Let_def Cons.IH)
  qed
qed

lemma zip_map_second:
  "zip ps (map (\<lambda>(n, c). (n, g n c)) xs) = map (\<lambda>(p, n, c). (p, n, g n c)) (zip ps xs)"
proof (induction xs arbitrary: ps)
  case Nil
  then show ?case by simp
next
  case (Cons x xs)
  then show ?case
    by (cases ps; cases x) simp_all
qed

lemma display_items_map_children:
  assumes "\<And>p n c. (p, n, c) \<in> set items \<Longrightarrow>
      (if os_path_isdir c
       then os_path_isdir (g n c) \<and>
            (\<forall>pre. display_tree_structure e c (os_path_join fp n) pats pre sh
                 = display_tree_structure e (g n c) (os_path_join fp n) pats pre sh)
       else g n c = c)"
  shows "display_items e fp pats pre sh (map (\<lambda>(p, n, c). (p, n, g n c)) items) acc
       = display_items e fp pats pre sh items acc"
proof -
  have "list_all2 (same_rendering e fp pats sh) items (map (\<lambda>(p, n, c). (p, n, g n c)) items)"
    unfolding list_all2_map2
    by (rule list_all2_all_nthI) (use assms in \<open>auto simp: same_rendering_def dest!: nth_mem split: prod.splits\<close>)
  then show ?thesis
    by (rule display_items_cong [symmetric])
qed

lemma isdir_prune [simp]: "os_path_isdir (prune e ps fp t) = os_path_isdir t"
  by (cases t) simp_all

lemma prune_not_dir: "\<not> os_path_isdir t \<Longrightarrow> prune e ps fp t = t"
  by (cases t) simp_all

lemma isdir_canon [simp]: "os_path_isdir (canon t) = os_path_isdir t"
  by (cases t) simp_all

lemma canon_not_dir: "\<not> os_path_isdir t \<Longrightarrow> canon t = t"
  by (cases t) simp_all

lemma prune_Dir:
  "prune e ps fp (Dir entries) =
     Dir (map (\<lambda>(n, c). (n, prune e ps (os_path_join fp n) c))
            (filter (\<lambda>(n, c). should_ignore e n (os_path_join fp n) ps blacklist \<noteq> Inr True) entries))"
proof -
  have "concat (map (\<lambda>(name, child).
           if should_ignore e name (os_path_join fp name) ps blacklist = Inr True then []
           else [(name, prune e ps (os_path_join fp name) child)]) xs)
      = map (\<lambda>(n, c). (n, prune e ps (os_path_join fp n) c))
          (filter (\<lambda>(n, c). should_ignore e n (os_path_join fp n) ps blacklist \<noteq> Inr True) xs)"
    for xs :: "(string \<times> node) list"
    by (induction xs) auto
  then show ?thesis by simp
qed

lemma sorted_filter_items_in_entries:
  assumes "filter_items e fp ps (sort_key fst entries) = Inr items"
    and "(p, n, c) \<in> set (zip pts items)"
  shows "(n, c) \<in> set entries"
proof -
  from assms(2) have "(n, c) \<in> set items"
    by (rule set_zip_rightD)
  with filter_items_kept [OF assms(1)] show ?thesis
    by auto
qed

lemma display_prune:
  "display_tree_structure e tree fp pats pre sh
     = display_tree_structure e (prune e (or_empty pats) fp tree) fp pats pre sh"
proof (induction tree arbitrary: fp pre)
  case (File r)
  show ?case by simp
next
  case (Dir_unlistable ex)
  show ?case by simp
next
  case (Dir entries)
  let ?ps = "or_empty pats"
  let ?h = "\<lambda>(n, c). (n, prune e ?ps (os_path_join fp n) c)"
  let ?keep = "\<lambda>(n, c). should_ignore e n (os_path_join fp n) ?ps blacklist \<noteq> Inr True"
  have fst_h: "fst (?h x) = fst x" for x
    by (cases x) simp
  have sorted: "sort_key fst (map ?h (filter ?keep entries)) = map ?h (filter ?keep (sort_key fst entries))"
    by (simp add: sort_key_map_fst [of ?h, OF fst_h] filter_sort)
  have fi: "filter_items e fp ?ps (map ?h (filter ?keep (sort_key fst entries)))
      = map_sum id (map ?h) (filter_items e fp ?ps (sort_key fst entries))"
    by (simp add: filter_items_map [of e fp ?ps "\<lambda>n c. prune e ?ps (os_path_join fp n) c"]
        filter_items_drop_ignored)
  have pr: "prune e ?ps fp (Dir entries) = Dir (map ?h (filter ?keep entries))"
    by (rule prune_Dir)
  show ?case
  proof (cases "filter_items e fp ?ps (sort_key fst entries)")
    case (Inl ex)
    with fi sorted show ?thesis
      unfolding pr by (simp add: display_tree_structure.simps)
  next
    case (Inr items)
    let ?pts = "replicate (length items - 1) tee @ [corner]"
    have children: "if os_path_isdir c
        then os_path_isdir (prune e ?ps (os_path_join fp n) c) \<and>
          (\<forall>pre. display_tree_structure e c (os_path_join fp n) pats pre sh
             = display_tree_structure e (prune e ?ps (os_path_join fp n) c) (os_path_join fp n) pats pre sh)
        else prune e ?ps (os_path_join fp n) c = c"
      if "(p, n, c) \<in> set (zip ?pts items)" for p n c
    proof -
      from Inr that have "(n, c) \<in> set entries"
        by (rule sorted_filter_items_in_entries)
      then show ?thesis
        using Dir.IH [of "(n, c)" c] by (simp add: prune_not_dir)
    qed
    have "display_tree_structure e (prune e ?ps fp (Dir entries)) fp pats pre sh
        = display_items e fp pats pre sh (zip ?pts (map ?h items)) 0"
      using fi sorted Inr unfolding pr by (simp add: display_tree_structure.simps)
    also have "\<dots> = display_items e fp pats pre sh
        (map (\<lambda>(p, n, c). (p, n, prune e ?ps (os_path_join fp n) c)) (zip ?pts items)) 0"
      by (simp only: zip_map_second)
    also have "\<dots> = display_items e fp pats pre sh (zip ?pts items) 0"
      by (rule display_items_map_children) (rule children)
    also have "\<dots> = display_tree_structure e (Dir entries) fp pats pre sh"
      using Inr by (simp add: display_tree_structure.simps)
    finally show ?thesis by simp
  qed
qed

lemma canon_Dir_sorted:
  fixes entries :: "(string \<times> node) list"
  shows "sort_key fst (sort_key fst (map (\<lambda>(n, c). (n, canon c)) entries))
     = map (\<lambda>(n, c). (n, canon c)) (sort_key fst entries)"
proof -
  have fst_h: "fst ((\<lambda>(n, c). (n, canon c)) x) = fst x" for x :: "string \<times> node"
    by (cases x) simp
  have "sort_key fst (sort_key fst (map (\<lambda>(n, c). (n, canon c)) entries))
      = sort_key fst (map (\<lambda>(n, c). (n, canon c)) entries)"
    by (rule sort_key_id_if_sorted) simp
  also have "\<dots> = map (\<lambda>(n, c). (n, canon c)) (sort_key fst entries)"
    using sort_key_map_fst [of "\<lambda>(n, c). (n, canon c)" entries, OF fst_h] .
  finally show ?thesis .
qed

lemma display_canon:
  "display_tree_structure e tree fp pats pre sh
     = display_tree_structure e (canon tree) fp pats pre sh"
proof (induction tree arbitrary: fp pre)
  case (File r)
  show ?case by simp
next
  case (Dir_unlistable ex)
  show ?case by simp
next
  case (Dir entries)
  let ?ps = "or_empty pats"
  let ?h = "\<lambda>(n, c). (n, canon c)"
  have fi: "filter_items e fp ?ps (map ?h (sort_key fst entries))
      = map_sum id (map ?h) (filter_items e fp ?ps (sort_key fst entries))"
    by (rule filter_items_map [of e fp ?ps "\<lambda>n c. canon c"])
  show ?case
  proof (cases "filter_items e fp ?ps (sort_key fst entries)")
    case (Inl ex)
    with fi show ?thesis
      by (simp add: display_tree_structure.simps canon_Dir_sorted del: sort_key_simps)
  next
    case (Inr items)
    let ?pts = "replicate (length items - 1) tee @ [corner]"
    have children: "if os_path_isdir c
        then os_path_isdir (canon c) \<and>
          (\<forall>pre. display_tree_structure e c (os_path_join fp n) pats pre sh
             = display_tree_structure e (canon c) (os_path_join fp n) pats pre sh)
        else canon c = c"
      if "(p, n, c) \<in> set (zip ?pts items)" for p n c
    proof -
      from Inr that have "(n, c) \<in> set entries"
        by (rule sorted_filter_items_in_entries)
      then show ?thesis
        using Dir.IH [of "(n, c)" c] by (simp add: canon_not_dir)
    qed
    have "display_tree_structure e (canon (Dir entries)) fp pats pre sh
        = display_items e fp pats pre sh (zip ?pts (map ?h items)) 0"
      using fi Inr by (simp add: display_tree_structure.simps canon_Dir_sorted)
    also have "\<dots> = display_items e fp pats pre sh
        (map (\<lambda>(p, n, c). (p, n, canon c)) (zip ?pts items)) 0"
      by (simp only: zip_map_second [of _ "\<lambda>n c. canon c"])
    also have "\<dots> = display_items e fp pats pre sh (zip ?pts items) 0"
      by (rule display_items_map_children [of _ "\<lambda>n c. canon c"]) (rule children)
    also have "\<dots> = display_tree_structure e (Dir entries) fp pats pre sh"
      using Inr by (simp add: display_tree_structure.simps)
    finally show ?thesis by simp
  qed
qed

lemma display_items_total:
  assumes "\<And>p n c pre' out t. (p, n, c) \<in> set items \<Longrightarrow> os_path_isdir c \<Longrightarrow>
      display_tree_structure e c (os_path_join fp n) pats pre' True = (out, Inr t) \<Longrightarrow> t = T n c"
    and "display_items e fp pats pre True items acc = (out, Inr tot)"
  shows "tot = acc + sum_list (map (\<lambda>(p, n, c).
      if os_path_isdir c then T n c else count_value e (os_path_join fp n, c)) items)"
  using assms
proof (induction items arbitrary: acc out tot)
  case Nil
  then show ?case by simp
next
  case (Cons x xs)
  obtain p n c where x: "x = (p, n, c)" by (cases x) auto
  let ?f = "\<lambda>(p, n, c). if os_path_isdir c then T n c else count_value e (os_path_join fp n, c)"
  have rest: "tot' = acc' + sum_list (map ?f xs)"
    if "display_items e fp pats pre True xs acc' = (out', Inr tot')" for acc' out' tot'
  proof (rule Cons.IH [of acc' out' tot'])
    show "t = T n c"
      if "(p, n, c) \<in> set xs" and "os_path_isdir c"
        and "display_tree_structure e c (os_path_join fp n) pats pre' True = (out, Inr t)"
      for p n c pre' out t
      using that by (intro Cons.prems(1) [of p n c pre' out t]) simp_all
  qed (rule that)
  show ?case
  proof (cases "os_path_isdir c")
    case True
    obtain out1 r1 where d: "display_tree_structure e c (os_path_join fp n) pats
        (pre @ (if p = tee then bar_ext else blank_ext)) True = (out1, r1)"
      by (cases "display_tree_structure e c (os_path_join fp n) pats
        (pre @ (if p = tee then bar_ext else blank_ext)) True") auto
    show ?thesis
    proof (cases r1)
      case (Inl ex)
      with Cons.prems(2) x True d show ?thesis
        by (simp add: Let_def)
    next
      case (Inr n1)
      have n1: "n1 = T n c"
        using Cons.prems(1) [of p n c _ out1 n1] x True d Inr by simp
      obtain out2 r2 where r: "display_items e fp pats pre True xs (acc + n1) = (out2, r2)"
        by (cases "display_items e fp pats pre True xs (acc + n1)") auto
      with Cons.prems(2) x True d Inr have "r2 = Inr tot"
        by (simp add: Let_def)
      with r rest [of "acc + n1" out2 tot] n1 x True show ?thesis
        by simp
    qed
  next
    case False
    show ?thesis
    proof (cases "count_lines_or_get_type e c (os_path_join fp n)")
      case (Inl ex)
      with Cons.prems(2) x False show ?thesis
        by (simp add: Let_def)
    next
      case (Inr ct)
      show ?thesis
      proof (cases ct)
        case (Count k)
        obtain out2 r2 where r: "display_items e fp pats pre True xs (acc + k) = (out2, r2)"
          by (cases "display_items e fp pats pre True xs (acc + k)") auto
        with Cons.prems(2) x False Inr Count have "r2 = Inr tot"
          by (simp add: Let_def)
        with r rest [of "acc + k" out2 tot] x False Inr Count show ?thesis
          by (simp add: count_value_def)
      next
        case (Type_name ty)
        obtain out2 r2 where r: "display_items e fp pats pre True xs acc = (out2, r2)"
          by (cases "display_items e fp pats pre True xs acc") auto
        with Cons.prems(2) x False Inr Type_name have "r2 = Inr tot"
          by (simp add: Let_def)
        with r rest [of acc out2 tot] x False Inr Type_name show ?thesis
          by (simp add: count_value_def)
      qed
    qed
  qed
qed

lemma sum_zip_pointers:
  assumes "length items \<le> length pts"
  shows "sum_list (map (\<lambda>(p, n, c). f n c) (zip pts items)) = sum_list (map (\<lambda>(n, c). f n c) items)"
  using assms
proof (induction items arbitrary: pts)
  case Nil
  then show ?case by simp
next
  case (Cons x xs)
  then show ?case
    by (cases pts; cases x) auto
qed

lemma line_total_Dir:
  "line_total e ps fp (Dir entries)
     = sum_list (map (\<lambda>(n, c). if os_path_isdir c then line_total e ps (os_path_join fp n) c
                               else count_value e (os_path_join fp n, c))
         (filter (\<lambda>(n, c). kept e ps n (os_path_join fp n)) entries))"
  by (induction entries) (auto simp: line_total_def)

lemma display_total:
  "display_tree_structure e tree fp pats pre True = (out, Inr tot)
     \<Longrightarrow> tot = line_total e (or_empty pats) fp tree"
proof (induction tree arbitrary: fp pre out tot)
  case (File r)
  then show ?case by (simp add: display_tree_structure.simps line_total_def)
next
  case (Dir_unlistable ex)
  then show ?case by (simp add: display_tree_structure.simps)
next
  case (Dir entries)
  let ?ps = "or_empty pats"
  let ?kept = "\<lambda>(n, c). kept e ?ps n (os_path_join fp n)"
  let ?f = "\<lambda>n c. if os_path_isdir c then line_total e ?ps (os_path_join fp n) c
                  else count_value e (os_path_join fp n, c)"
  from Dir.prems obtain items where fi: "filter_items e fp ?ps (sort_key fst entries) = Inr items"
    by (cases "filter_items e fp ?ps (sort_key fst entries)") (simp_all add: display_tree_structure.simps)
  let ?pts = "replicate (length items - 1) tee @ [corner]"
  from Dir.prems fi have loop: "display_items e fp pats pre True (zip ?pts items) 0 = (out, Inr tot)"
    by (simp add: display_tree_structure.simps)
  have children: "t = line_total e ?ps (os_path_join fp n) c"
    if "(p, n, c) \<in> set (zip ?pts items)"
      and "display_tree_structure e c (os_path_join fp n) pats pre' True = (out', Inr t)"
    for p n c pre' out' t
  proof -
    from fi that(1) have "(n, c) \<in> set entries"
      by (rule sorted_filter_items_in_entries)
    then show ?thesis
      using that(2) by (intro Dir.IH [of "(n, c)" c "os_path_join fp n" pre' out' t]) simp_all
  qed
  have "tot = 0 + sum_list (map (\<lambda>(p, n, c). ?f n c) (zip ?pts items))"
    using children loop
    by (intro display_items_total [of "zip ?pts items" e fp pats "\<lambda>n c. line_total e ?ps (os_path_join fp n) c" pre 0 out tot]) blast+
  also have "\<dots> = sum_list (map (\<lambda>(n, c). ?f n c) items)"
    by (simp only: add_0) (rule sum_zip_pointers, simp)
  also have "\<dots> = sum_list (map (\<lambda>(n, c). ?f n c) (filter ?kept (sort_key fst entries)))"
    using filter_items_kept [OF fi] by simp
  also have "\<dots> = sum_list (map (\<lambda>(n, c). ?f n c) (sort_key fst (filter ?kept entries)))"
    by (simp only: filter_sort)
  also have "\<dots> = sum_list (map (\<lambda>(n, c). ?f n c) (filter ?kept entries))"
    by (rule sum_sort_key_eq)
  also have "\<dots> = line_total e ?ps fp (Dir entries)"
    by (rule line_total_Dir [symmetric])
  finally show ?case .
qed

lemma filter_items_returns:
  assumes "\<And>n c. (n, c) \<in> set xs \<Longrightarrow> \<not> isl (should_ignore e n (os_path_join fp n) ps blacklist)"
  shows "\<exists>items. filter_items e fp ps xs = Inr items"
  using assms
proof (induction xs)
  case Nil
  then show ?case by simp
next
  case (Cons x xs)
  obtain n c where x: "x = (n, c)" by (cases x) auto
  obtain b where b: "should_ignore e n (os_path_join fp n) ps blacklist = Inr b"
    using Cons.prems [of n c] x by (cases "should_ignore e n (os_path_join fp n) ps blacklist") auto
  obtain items where "filter_items e fp ps xs = Inr items"
    using Cons by auto
  with x b show ?case by simp
qed

lemma display_items_returns:
  assumes "\<And>p n c pre'. (p, n, c) \<in> set items \<Longrightarrow> os_path_isdir c \<Longrightarrow>
      \<not> isl (snd (display_tree_structure e c (os_path_join fp n) pats pre' True))"
    and "\<And>p n c. (p, n, c) \<in> set items \<Longrightarrow> \<not> os_path_isdir c \<Longrightarrow>
      \<not> isl (count_lines_or_get_type e c (os_path_join fp n))"
  shows "\<not> isl (snd (display_items e fp pats pre True items acc))"
  using assms
proof (induction items arbitrary: acc)
  case Nil
  then show ?case by simp
next
  case (Cons x xs)
  obtain p n c where x: "x = (p, n, c)" by (cases x) auto
  have rest: "\<not> isl (snd (display_items e fp pats pre True xs acc'))" for acc'
  proof (rule Cons.IH)
    show "\<not> isl (snd (display_tree_structure e c (os_path_join fp n) pats pre' True))"
      if "(p, n, c) \<in> set xs" and "os_path_isdir c" for p n c pre'
      using that by (intro Cons.prems(1) [of p n c pre']) simp_all
    show "\<not> isl (count_lines_or_get_type e c (os_path_join fp n))"
      if "(p, n, c) \<in> set xs" and "\<not> os_path_isdir c" for p n c
      using that by (intro Cons.prems(2) [of p n c]) simp_all
  qed
  show ?case
  proof (cases "os_path_isdir c")
    case True
    obtain out1 r1 where d: "display_tree_structure e c (os_path_join fp n) pats
        (pre @ (if p = tee then bar_ext else blank_ext)) True = (out1, r1)"
      by (cases "display_tree_structure e c (os_path_join fp n) pats
        (pre @ (if p = tee then bar_ext else blank_ext)) True") auto
    have "\<not> isl r1"
      using Cons.prems(1) [of p n c "pre @ (if p = tee then bar_ext else blank_ext)"] x True d by simp
    then obtain n1 where n1: "r1 = Inr n1"
      by (cases r1) auto
    obtain out2 r2 where r: "display_items e fp pats pre True xs (acc + n1) = (out2, r2)"
      by (cases "display_items e fp pats pre True xs (acc + n1)") auto
    with rest [of "acc + n1"] have "\<not> isl r2" by simp
    with x True d n1 r show ?thesis
      by (simp add: Let_def)
  next
    case False
    have "\<not> isl (count_lines_or_get_type e c (os_path_join fp n))"
      using Cons.prems(2) [of p n c] x False by simp
    then obtain ct where ct: "count_lines_or_get_type e c (os_path_join fp n) = Inr ct"
      by (cases "count_lines_or_get_type e c (os_path_join fp n)") auto
    show ?thesis
    proof (cases ct)
      case (Count k)
      obtain out2 r2 where r: "display_items e fp pats pre True xs (acc + k) = (out2, r2)"
        by (cases "display_items e fp pats pre True xs (acc + k)") auto
      with rest [of "acc + k"] have "\<not> isl r2" by simp
      with x False ct Count r show ?thesis
        by (simp add: Let_def)
    next
      case (Type_name ty)
      obtain out2 r2 where r: "display_items e fp pats pre True xs acc = (out2, r2)"
        by (cases "display_items e fp pats pre True xs acc") auto
      with rest [of acc] have "\<not> isl r2" by simp
      with x False ct Type_name r show ?thesis
        by (simp add: Let_def)
    qed
  qed
qed

lemma readable_entry:
  assumes "readable e ps fp (Dir entries)" and "(n, c) \<in> set entries"
  shows "\<not> isl (should_ignore e n (os_path_join fp n) ps blacklist)"
    and "kept e ps n (os_path_join fp n) \<Longrightarrow> os_path_isdir c \<Longrightarrow> readable e ps (os_path_join fp n) c"
    and "kept e ps n (os_path_join fp n) \<Longrightarrow> \<not> os_path_isdir c \<Longrightarrow>
           \<not> isl (count_lines_or_get_type e c (os_path_join fp n))"
proof -
  have all: "\<forall>x \<in> set entries. (case x of (name, child) \<Rightarrow>
      (case should_ignore e name (os_path_join fp name) ps blacklist of
         Inl ex \<Rightarrow> False
       | Inr ignored \<Rightarrow>
           ignored \<or>
           (if os_path_isdir child then readable e ps (os_path_join fp name) child
            else \<not> isl (count_lines_or_get_type e child (os_path_join fp name)))))"
    using assms(1) unfolding readable.simps list_all_iff .
  have entry:
    "case should_ignore e n (os_path_join fp n) ps blacklist of
       Inl ex \<Rightarrow> False
     | Inr ignored \<Rightarrow>
         ignored \<or>
         (if os_path_isdir c then readable e ps (os_path_join fp n) c
          else \<not> isl (count_lines_or_get_type e c (os_path_join fp n)))"
    using bspec [OF all assms(2)] by simp
  show "\<not> isl (should_ignore e n (os_path_join fp n) ps blacklist)"
    using entry by (cases "should_ignore e n (os_path_join fp n) ps blacklist") simp_all
  show "readable e ps (os_path_join fp n) c"
    if "kept e ps n (os_path_join fp n)" and "os_path_isdir c"
    using entry that by (simp add: kept_def)
  show "\<not> isl (count_lines_or_get_type e c (os_path_join fp n))"
    if "kept e ps n (os_path_join fp n)" and "\<not> os_path_isdir c"
    using entry that by (simp add: kept_def)
qed

lemma display_returns:
  "readable e (or_empty pats) fp tree \<Longrightarrow> \<not> isl (snd (display_tree_structure e tree fp pats pre True))"
proof (induction tree arbitrary: fp pre)
  case (File r)
  then show ?case by (simp add: display_tree_structure.simps)
next
  case (Dir_unlistable ex)
  then show ?case by simp
next
  case (Dir entries)
  let ?ps = "or_empty pats"
  have "\<exists>items. filter_items e fp ?ps (sort_key fst entries) = Inr items"
    by (rule filter_items_returns) (use Dir.prems readable_entry(1) in auto)
  then obtain items where fi: "filter_items e fp ?ps (sort_key fst entries) = Inr items"
    by blast
  let ?pts = "replicate (length items - 1) tee @ [corner]"
  have mem: "(n, c) \<in> set entries \<and> kept e ?ps n (os_path_join fp n)"
    if "(p, n, c) \<in> set (zip ?pts items)" for p n c
  proof -
    from that have "(n, c) \<in> set items"
      by (rule set_zip_rightD)
    with filter_items_kept [OF fi] show ?thesis
      by auto
  qed
  have "\<not> isl (snd (display_items e fp pats pre True (zip ?pts items) 0))"
  proof (rule display_items_returns)
    show "\<not> isl (snd (display_tree_structure e c (os_path_join fp n) pats pre' True))"
      if "(p, n, c) \<in> set (zip ?pts items)" and "os_path_isdir c" for p n c pre'
    proof -
      have "readable e ?ps (os_path_join fp n) c"
        using mem [OF that(1)] that(2) readable_entry(2) [OF Dir.prems] by blast
      then show ?thesis
        using mem [OF that(1)] by (intro Dir.IH [of "(n, c)" c]) simp_all
    qed
    show "\<not> isl (count_lines_or_get_type e c (os_path_join fp n))"
      if "(p, n, c) \<in> set (zip ?pts items)" and "\<not> os_path_isdir c" for p n c
      using mem [OF that(1)] that(2) readable_entry(3) [OF Dir.prems] by blast
  qed
  with fi show ?case
    by (simp add: display_tree_structure.simps)
qed

section \<open>Facts about the dumper\<close>




lemma re_match_total:
  assumes "re_compile p \<noteq> None"
  shows "\<exists>b. re_match p s = Inr b"
proof -
  from assms obtain r where "re_compile p = Some r"
    by auto
  then have "re_match p s = Inr (residuals (length s) r s \<noteq> [])"
    by (simp add: re_match_def)
  then show ?thesis ..
qed

lemma any_pattern_matches_total:
  "(\<And>p. p \<in> set ps \<Longrightarrow> re_compile p \<noteq> None) \<Longrightarrow> \<exists>b. any_pattern_matches ps name path = Inr b"
proof (induction ps)
  case Nil
  show ?case by (simp add: exI [of _ False])
next
  case (Cons p ps)
  have c: "re_compile p \<noteq> None"
    using Cons.prems [of p] by simp
  obtain b1 where "re_match p name = Inr b1"
    using re_match_total [OF c] by blast
  moreover obtain b2 where "re_match p path = Inr b2"
    using re_match_total [OF c] by blast
  moreover obtain b where "any_pattern_matches ps name path = Inr b"
    using Cons by auto
  ultimately show ?case by (cases b1; cases b2) auto
qed

lemma should_ignore_total:
  assumes "\<And>p. p \<in> set ps \<Longrightarrow> re_compile p \<noteq> None"
  shows "should_ignore e name path ps blacklist = Inr (\<not> kept e ps name path)"
proof -
  obtain b where "any_pattern_matches ps name path = Inr b"
    using any_pattern_matches_total [OF assms] by blast
  then show ?thesis
    by (simp add: should_ignore_def kept_def)
qed

lemma filter_items_total:
  assumes "\<And>p. p \<in> set ps \<Longrightarrow> re_compile p \<noteq> None"
  shows "filter_items e fp ps xs = Inr (filter (\<lambda>(n, c). kept e ps n (os_path_join fp n)) xs)"
proof (induction xs)
  case Nil
  then show ?case by simp
next
  case (Cons x xs)
  then show ?case
    by (cases x) (simp add: should_ignore_total [OF assms])
qed

lemma dump_files_total:
  assumes "\<And>p. p \<in> set (or_empty pats) \<Longrightarrow> re_compile p \<noteq> None"
  shows "dump_files e root pats files
     = (map (\<lambda>(n, f). dump_line (os_path_join root n, f))
          (filter (\<lambda>(n, c). kept e (or_empty pats) n (os_path_join root n)) files), None)"
proof (induction files)
  case Nil
  then show ?case by simp
next
  case (Cons x xs)
  then show ?case
    by (cases x) (auto simp: should_ignore_total [OF assms] dump_line_def Let_def split: sum.splits)
qed

lemma walk_dirs_total:
  assumes "\<And>d c. (d, c) \<in> set dirs \<Longrightarrow> snd (print_file_contents e c (os_path_join root d) pats) = None"
  shows "walk_dirs e root pats dirs
     = (concat (map (\<lambda>(d, c). fst (print_file_contents e c (os_path_join root d) pats)) dirs), None)"
  using assms
proof (induction dirs)
  case Nil
  then show ?case by simp
next
  case (Cons x xs)
  obtain d c where x: "x = (d, c)" by (cases x) auto
  obtain out where out: "print_file_contents e c (os_path_join root d) pats = (out, None)"
    using Cons.prems [of d c] x by (cases "print_file_contents e c (os_path_join root d) pats") auto
  have "walk_dirs e root pats xs
     = (concat (map (\<lambda>(d, c). fst (print_file_contents e c (os_path_join root d) pats)) xs), None)"
    using Cons.prems by (intro Cons.IH) auto
  with x out show ?case by simp
qed

lemma visible_files_split:
  assumes "\<And>d c. (d, c) \<in> set xs \<Longrightarrow> os_path_isdir c \<Longrightarrow> kept e ps d (os_path_join root d) \<Longrightarrow>
      mset (W (d, c)) = image_mset dump_line (mset (visible_files e ps (os_path_join root d) c))"
  shows "image_mset dump_line (mset (visible_files e ps root (Dir xs)))
     = mset (map (\<lambda>(n, f). dump_line (os_path_join root n, f))
          (filter (\<lambda>(n, c). kept e ps n (os_path_join root n)) (filter (\<lambda>(d, c). \<not> os_path_isdir c) xs)))
       + mset (concat (map W
          (filter (\<lambda>(n, c). kept e ps n (os_path_join root n)) (filter (\<lambda>(d, c). os_path_isdir c) xs))))"
  using assms
proof (induction xs)
  case Nil
  then show ?case by simp
next
  case (Cons x xs)
  let ?kept = "\<lambda>(n, c). kept e ps n (os_path_join root n)"
  let ?isd = "\<lambda>(d, c). os_path_isdir c"
  let ?notd = "\<lambda>(d, c). \<not> os_path_isdir c"
  let ?dl = "\<lambda>(n, f). dump_line (os_path_join root n, f)"
  obtain n c where x: "x = (n, c)" by (cases x) auto
  define A where "A = map ?dl (filter ?kept (filter ?notd xs))"
  define B where "B = concat (map W (filter ?kept (filter ?isd xs)))"
  define V where "V = visible_files e ps root (Dir xs)"
  have IH: "image_mset dump_line (mset V) = mset A + mset B"
    unfolding A_def B_def V_def using Cons.prems by (intro Cons.IH) auto
  have head: "os_path_isdir c \<Longrightarrow> kept e ps n (os_path_join root n) \<Longrightarrow>
      mset (W (n, c)) = image_mset dump_line (mset (visible_files e ps (os_path_join root n) c))"
    using Cons.prems [of n c] x by simp
  have fA: "map ?dl (filter ?kept (filter ?notd (x # xs)))
      = (if kept e ps n (os_path_join root n) \<and> \<not> os_path_isdir c
         then [dump_line (os_path_join root n, c)] else []) @ A"
    by (simp add: x A_def del: filter_filter)
  have fB: "concat (map W (filter ?kept (filter ?isd (x # xs))))
      = (if kept e ps n (os_path_join root n) \<and> os_path_isdir c then W (n, c) else []) @ B"
    by (simp add: x B_def del: filter_filter)
  have fV: "visible_files e ps root (Dir (x # xs))
      = (if kept e ps n (os_path_join root n)
         then (if os_path_isdir c then visible_files e ps (os_path_join root n) c
               else [(os_path_join root n, c)])
         else []) @ V"
    by (simp add: x V_def)
  show ?case
    unfolding fA fB fV using IH head by simp
qed

lemma print_file_contents_total:
  assumes "\<And>p. p \<in> set (or_empty pats) \<Longrightarrow> re_compile p \<noteq> None"
  shows "snd (print_file_contents e tree root pats) = None \<and>
     mset (fst (print_file_contents e tree root pats))
       = image_mset dump_line (mset (visible_files e (or_empty pats) root tree))"
proof (induction tree arbitrary: root)
  case (File r)
  show ?case by (simp add: print_file_contents.simps)
next
  case (Dir_unlistable ex)
  show ?case by (simp add: print_file_contents.simps)
next
  case (Dir entries)
  let ?ps = "or_empty pats"
  let ?kept = "\<lambda>(n, c). kept e ?ps n (os_path_join root n)"
  let ?isd = "\<lambda>(d, c). os_path_isdir c"
  let ?notd = "\<lambda>(d, c). \<not> os_path_isdir c"
  let ?W = "\<lambda>(d, c). fst (print_file_contents e c (os_path_join root d) pats)"
  let ?ds = "filter ?kept (filter ?isd entries)"
  have child: "snd (print_file_contents e c (os_path_join root d) pats) = None \<and>
      mset (fst (print_file_contents e c (os_path_join root d) pats))
        = image_mset dump_line (mset (visible_files e ?ps (os_path_join root d) c))"
    if "(d, c) \<in> set entries" for d c
    using that by (intro Dir.IH [of "(d, c)" c]) simp_all
  have fi: "filter_items e root ?ps (filter ?isd entries) = Inr ?ds"
    by (rule filter_items_total [OF assms])
  have df: "dump_files e root pats (filter ?notd entries)
      = (map (\<lambda>(n, f). dump_line (os_path_join root n, f)) (filter ?kept (filter ?notd entries)), None)"
    by (rule dump_files_total [OF assms])
  have wd: "walk_dirs e root pats ?ds = (concat (map ?W ?ds), None)"
    by (rule walk_dirs_total) (use child in auto)
  have pfc: "print_file_contents e (Dir entries) root pats
      = (map (\<lambda>(n, f). dump_line (os_path_join root n, f)) (filter ?kept (filter ?notd entries))
           @ concat (map ?W ?ds), None)"
    by (simp add: print_file_contents.simps fi df wd del: filter_filter)
  have "image_mset dump_line (mset (visible_files e ?ps root (Dir entries)))
      = mset (map (\<lambda>(n, f). dump_line (os_path_join root n, f)) (filter ?kept (filter ?notd entries)))
        + mset (concat (map ?W ?ds))"
    by (rule visible_files_split) (use child in auto)
  with pfc show ?case
    by (simp del: filter_filter visible_files.simps)
qed

lemma ignore_patterns_compile: "p \<in> set ignore_patterns \<Longrightarrow> re_compile p \<noteq> None"
proof -
  have "\<forall>p \<in> set ignore_patterns. re_compile p \<noteq> None"
    by code_simp
  then show "p \<in> set ignore_patterns \<Longrightarrow> re_compile p \<noteq> None"
    by blast
qed

lemma should_ignore_no_patterns:
  "should_ignore e name path [] black = Inr (blacklisted e path black)"
  by (simp add: should_ignore_def)

lemma blacklisted_iff:
  "blacklisted e path black \<longleftrightarrow>
     os_path_basename (os_path_abspath e path) \<in> set black
     \<or> (\<exists>bl \<in> set black. prefix (os_path_abspath e bl) (os_path_abspath e path))"
  by (auto simp: blacklisted_def Let_def list_ex_iff)

lemma should_ignore_blacklisted:
  assumes "\<And>p. p \<in> set ps \<Longrightarrow> re_compile p \<noteq> None" and "blacklisted e path blacklist"
  shows "should_ignore e name path ps blacklist = Inr True"
proof -
  obtain b where "any_pattern_matches ps name path = Inr b"
    using any_pattern_matches_total [OF assms(1)] by blast
  with assms(2) show ?thesis
    by (simp add: should_ignore_def)
qed

section \<open>The claims\<close>

text \<open>
  C1: with line counts shown, the total that \<open>display_tree_structure\<close> returns is the
  sum of the line counts of the files that are kept and lie under kept directories only;
  a file that gives a type string adds nothing. The renderer returns that total on every
  tree it can read. An empty directory, and a path that is not a directory, give no
  output and the total 0.
\<close>

theorem total_is_sum_of_visible_line_counts:
  "(snd (display_tree_structure e tree fp pats pre True) = Inr tot
      \<longrightarrow> tot = line_total e (or_empty pats) fp tree)
   \<and> (readable e (or_empty pats) fp tree
      \<longrightarrow> snd (display_tree_structure e tree fp pats pre True)
            = Inr (line_total e (or_empty pats) fp tree))
   \<and> display_tree_structure e (Dir []) fp pats pre True = ([], Inr 0)
   \<and> display_tree_structure e (File r) fp pats pre True = ([], Inr 0)"
proof (intro conjI impI)
  assume "snd (display_tree_structure e tree fp pats pre True) = Inr tot"
  then have "display_tree_structure e tree fp pats pre True
      = (fst (display_tree_structure e tree fp pats pre True), Inr tot)"
    by (metis prod.collapse)
  then show "tot = line_total e (or_empty pats) fp tree"
    by (rule display_total)
next
  assume "readable e (or_empty pats) fp tree"
  then have "\<not> isl (snd (display_tree_structure e tree fp pats pre True))"
    by (rule display_returns)
  then obtain n where n: "snd (display_tree_structure e tree fp pats pre True) = Inr n"
    by (cases "snd (display_tree_structure e tree fp pats pre True)") auto
  then have "display_tree_structure e tree fp pats pre True
      = (fst (display_tree_structure e tree fp pats pre True), Inr n)"
    by (metis prod.collapse)
  then have "n = line_total e (or_empty pats) fp tree"
    by (rule display_total)
  with n show "snd (display_tree_structure e tree fp pats pre True)
      = Inr (line_total e (or_empty pats) fp tree)"
    by simp
next
  show "display_tree_structure e (Dir []) fp pats pre True = ([], Inr 0)"
    by (simp add: display_tree_structure.simps)
next
  show "display_tree_structure e (File r) fp pats pre True = ([], Inr 0)"
    by (simp add: display_tree_structure.simps)
qed

theorem total_is_sum_of_visible_line_counts_witness:
  "readable example_env ignore_patterns ''root'' example_tree
   \<and> snd (display_tree_structure example_env example_tree ''root'' (Some ignore_patterns) [] True) = Inr 4
   \<and> line_total example_env ignore_patterns ''root'' example_tree = 4"
proof -
  have ok: "readable example_env (or_empty (Some ignore_patterns)) ''root'' example_tree"
    by code_simp
  have run: "snd (display_tree_structure example_env example_tree ''root'' (Some ignore_patterns) [] True)
      = Inr 4"
    by code_simp
  note inst = total_is_sum_of_visible_line_counts
      [of example_env example_tree "''root''" "Some ignore_patterns" "[]" 4]
  have "4 = line_total example_env (or_empty (Some ignore_patterns)) ''root'' example_tree"
    using inst run by blast
  moreover have "snd (display_tree_structure example_env example_tree ''root'' (Some ignore_patterns) [] True)
      = Inr (line_total example_env (or_empty (Some ignore_patterns)) ''root'' example_tree)"
    using inst ok by blast
  ultimately show ?thesis
    using ok run by (simp add: or_empty_def)
qed

text \<open>
  C2, at a failing input: a file that may not be read. \<^verbatim>\<open>open\<close> raises
  \<open>PermissionError\<close>, which the handler of line 51 does not name, so the exception
  leaves \<open>count_lines_or_get_type\<close>.
\<close>

theorem permission_error_propagates:
  "count_lines_or_get_type example_env (File (Inl (Exn PermissionError ''[Errno 13] Permission denied''))) ''root/secret.txt''
     = Inl (Exn PermissionError ''[Errno 13] Permission denied'')"
  by (simp add: count_lines_or_get_type_def)


text \<open>
  C4: when every pattern compiles, the dumper ends without an exception and prints
  exactly one string for each file that is kept and lies under kept directories only: the
  path and the content when the read succeeds, and the line
  \<^verbatim>\<open>Error reading <path>: <message>\<close> when it raises, whatever happens to the other
  files.
\<close>

theorem read_errors_are_reported_inline:
  assumes "\<forall>p \<in> set (or_empty pats). re_compile p \<noteq> None"
  shows "snd (print_file_contents e tree root pats) = None \<and>
     mset (fst (print_file_contents e tree root pats))
       = image_mset dump_line (mset (visible_files e (or_empty pats) root tree)) \<and>
     (\<forall>(path, f) \<in> set (visible_files e (or_empty pats) root tree).
        (case open_read f path of
           Inl ex \<Rightarrow> ''Error reading '' @ path @ '': '' @ exn_message ex
         | Inr content \<Rightarrow> path @ '':'' @ [newline] @ content)
        \<in> set (fst (print_file_contents e tree root pats)))"
proof -
  have total: "snd (print_file_contents e tree root pats) = None \<and>
     mset (fst (print_file_contents e tree root pats))
       = image_mset dump_line (mset (visible_files e (or_empty pats) root tree))"
    using assms by (intro print_file_contents_total) blast
  then have "set (fst (print_file_contents e tree root pats))
      = dump_line ` set (visible_files e (or_empty pats) root tree)"
    by (metis set_mset_mset set_image_mset)
  then have "\<forall>(path, f) \<in> set (visible_files e (or_empty pats) root tree).
        (case open_read f path of
           Inl ex \<Rightarrow> ''Error reading '' @ path @ '': '' @ exn_message ex
         | Inr content \<Rightarrow> path @ '':'' @ [newline] @ content)
        \<in> set (fst (print_file_contents e tree root pats))"
    by (auto simp: dump_line_def image_iff split: sum.splits) (force simp: dump_line_def)+
  with total show ?thesis by blast
qed

theorem read_errors_are_reported_inline_witness:
  "snd (print_file_contents example_env locked_tree ''root'' (Some ignore_patterns)) = None
   \<and> ''Error reading root/secret.txt: [Errno 13] Permission denied''
       \<in> set (fst (print_file_contents example_env locked_tree ''root'' (Some ignore_patterns)))
   \<and> ''root/z.txt:'' @ [newline] @ ''last''
       \<in> set (fst (print_file_contents example_env locked_tree ''root'' (Some ignore_patterns)))"
proof -
  have compile: "\<forall>p \<in> set (or_empty (Some ignore_patterns)). re_compile p \<noteq> None"
    by (simp add: or_empty_def ignore_patterns_compile)
  note inst = read_errors_are_reported_inline [OF compile, of example_env locked_tree "''root''"]
  have secret: "(''root/secret.txt'', File (Inl (Exn PermissionError ''[Errno 13] Permission denied'')))
      \<in> set (visible_files example_env (or_empty (Some ignore_patterns)) ''root'' locked_tree)"
    by code_simp
  have z: "(''root/z.txt'', File (Inr ''last''))
      \<in> set (visible_files example_env (or_empty (Some ignore_patterns)) ''root'' locked_tree)"
    by code_simp
  from inst secret have "''Error reading root/secret.txt: [Errno 13] Permission denied''
       \<in> set (fst (print_file_contents example_env locked_tree ''root'' (Some ignore_patterns)))"
    by fastforce
  moreover from inst z have "''root/z.txt:'' @ [newline] @ ''last''
       \<in> set (fst (print_file_contents example_env locked_tree ''root'' (Some ignore_patterns)))"
    by fastforce
  ultimately show ?thesis
    using inst by blast
qed

text \<open>
  C5: with \<^verbatim>\<open>--structure-all\<close> alone the script renders the tree with no pattern list,
  so the filter runs with the empty list and answers by the blacklist only: the base
  name of the absolute path is a blacklist entry, or the absolute path of a blacklist
  entry is a prefix of it. A blacklisted entry is rejected there as it is under the
  script's own patterns, and the tree rendered is the one with those entries deleted.
\<close>

theorem structure_all_applies_blacklist_only:
  assumes "args_structure_all a" and "\<not> args_structure a" and "\<not> args_help_only a"
    and "args_folder_path a = Some p" and "p \<noteq> []"
  shows "main e tree a =
      (case display_tree_structure e tree p None [] True of
         (out, Inl ex) \<Rightarrow> (tree_all_header # out, Raised ex)
       | (out, Inr total_lines) \<Rightarrow> (tree_all_header # out @ [total_line total_lines], Finished))
    \<and> (\<forall>name path. should_ignore e name path (or_empty None) blacklist
          = Inr (os_path_basename (os_path_abspath e path) \<in> set blacklist
                 \<or> (\<exists>bl \<in> set blacklist. prefix (os_path_abspath e bl) (os_path_abspath e path))))
    \<and> (\<forall>name path. blacklisted e path blacklist
          \<longrightarrow> should_ignore e name path (or_empty None) blacklist = Inr True
              \<and> should_ignore e name path ignore_patterns blacklist = Inr True)
    \<and> display_tree_structure e tree p None [] True
        = display_tree_structure e (prune e [] p tree) p None [] True"
proof (intro conjI allI impI)
  show "main e tree a =
      (case display_tree_structure e tree p None [] True of
         (out, Inl ex) \<Rightarrow> (tree_all_header # out, Raised ex)
       | (out, Inr total_lines) \<Rightarrow> (tree_all_header # out @ [total_line total_lines], Finished))"
    using assms by (simp add: main_def)
next
  fix name path
  show "should_ignore e name path (or_empty None) blacklist
      = Inr (os_path_basename (os_path_abspath e path) \<in> set blacklist
             \<or> (\<exists>bl \<in> set blacklist. prefix (os_path_abspath e bl) (os_path_abspath e path)))"
    by (simp add: or_empty_def should_ignore_no_patterns blacklisted_iff)
next
  fix name path
  assume "blacklisted e path blacklist"
  then show "should_ignore e name path (or_empty None) blacklist = Inr True"
    by (simp add: or_empty_def should_ignore_no_patterns)
next
  fix name path
  assume "blacklisted e path blacklist"
  then show "should_ignore e name path ignore_patterns blacklist = Inr True"
    by (intro should_ignore_blacklisted ignore_patterns_compile)
next
  show "display_tree_structure e tree p None [] True
      = display_tree_structure e (prune e [] p tree) p None [] True"
    using display_prune [of e tree p None "[]" True] by (simp add: or_empty_def)
qed

theorem structure_all_applies_blacklist_only_witness:
  "main example_env example_tree
      \<lparr>args_folder_path = Some ''root'', args_structure = False, args_structure_all = True,
       args_help_only = False\<rparr>
    = (case display_tree_structure example_env example_tree ''root'' None [] True of
         (out, Inl ex) \<Rightarrow> (tree_all_header # out, Raised ex)
       | (out, Inr total_lines) \<Rightarrow> (tree_all_header # out @ [total_line total_lines], Finished))
   \<and> should_ignore example_env ''.env'' ''root/.env'' [] blacklist = Inr False
   \<and> should_ignore example_env ''node_modules'' ''root/node_modules'' [] blacklist = Inr True
   \<and> should_ignore example_env ''node_modules'' ''root/node_modules'' ignore_patterns blacklist = Inr True
   \<and> snd (display_tree_structure example_env example_tree ''root'' None [] True) = Inr 5"
proof -
  let ?a = "\<lparr>args_folder_path = Some ''root'', args_structure = False, args_structure_all = True,
       args_help_only = False\<rparr>"
  have mode: "args_structure_all ?a" "\<not> args_structure ?a" "\<not> args_help_only ?a"
    "args_folder_path ?a = Some ''root''" "''root'' \<noteq> []"
    by simp_all
  note inst = structure_all_applies_blacklist_only [OF mode, of example_env example_tree]
  have env: "should_ignore example_env ''.env'' ''root/.env'' [] blacklist = Inr False"
    by code_simp
  have bl: "blacklisted example_env ''root/node_modules'' blacklist"
    by code_simp
  have run: "snd (display_tree_structure example_env example_tree ''root'' None [] True) = Inr 5"
    by code_simp
  have first: "main example_env example_tree ?a
    = (case display_tree_structure example_env example_tree ''root'' None [] True of
         (out, Inl ex) \<Rightarrow> (tree_all_header # out, Raised ex)
       | (out, Inr total_lines) \<Rightarrow> (tree_all_header # out @ [total_line total_lines], Finished))"
    using inst by (rule conjunct1)
  have "should_ignore example_env ''node_modules'' ''root/node_modules'' (or_empty None) blacklist = Inr True
      \<and> should_ignore example_env ''node_modules'' ''root/node_modules'' ignore_patterns blacklist = Inr True"
    using inst bl by blast
  then have nm: "should_ignore example_env ''node_modules'' ''root/node_modules'' [] blacklist = Inr True"
    and nm': "should_ignore example_env ''node_modules'' ''root/node_modules'' ignore_patterns blacklist = Inr True"
    by (simp_all add: or_empty_def)
  show ?thesis
    by (intro conjI first env nm nm' run)
qed

text \<open>
  C6, as the code has it: for a file that decodes, the count is the number of lines that
  iterating over the file yields, which is the number of newlines, and one more when
  text follows the last newline.
\<close>

theorem count_is_number_of_lines:
  "count_lines_or_get_type e (File (Inr s)) filepath =
     Inr (Count (int (count_list s newline)
                 + (if s = [] \<or> last s = newline then 0 else 1)))"
  by (simp add: count_lines_or_get_type_def length_readlines sum_list_triv)

text \<open>
  C6 as stated fails: a file of two lines of which the last has no newline counts 2,
  and has one terminated line.
\<close>

theorem unterminated_last_line_is_counted:
  "count_lines_or_get_type example_env (File (Inr (''a'' @ [newline] @ ''b''))) ''f.txt'' = Inr (Count 2)
   \<and> count_list (''a'' @ [newline] @ ''b'') newline = 1"
  by (simp add: count_lines_or_get_type_def newline_def)

text \<open>
  C7: the renderer does not depend on the order in which the file system lists the
  entries of a directory. Two trees that are equal once every directory is put in the
  order of its names give the same output and the same result.
\<close>

theorem rendering_independent_of_listing_order:
  assumes "canon t = canon t'"
  shows "display_tree_structure e t fp pats pre sh = display_tree_structure e t' fp pats pre sh"
proof -
  have "display_tree_structure e t fp pats pre sh = display_tree_structure e (canon t) fp pats pre sh"
    by (rule display_canon)
  also have "\<dots> = display_tree_structure e (canon t') fp pats pre sh"
    by (simp only: assms)
  also have "\<dots> = display_tree_structure e t' fp pats pre sh"
    by (rule display_canon [symmetric])
  finally show ?thesis .
qed

theorem rendering_independent_of_listing_order_witness:
  "canon example_tree = canon example_tree_relisted
   \<and> example_tree \<noteq> example_tree_relisted
   \<and> display_tree_structure example_env example_tree ''root'' (Some ignore_patterns) [] True
     = display_tree_structure example_env example_tree_relisted ''root'' (Some ignore_patterns) [] True"
proof -
  have same: "canon example_tree = canon example_tree_relisted"
    by code_simp
  have "example_tree \<noteq> example_tree_relisted"
    by (simp add: example_tree_def example_tree_relisted_def)
  with same rendering_independent_of_listing_order [OF same] show ?thesis
    by blast
qed

text \<open>
  C8, as the code has it: with both \<^verbatim>\<open>--structure\<close> and \<^verbatim>\<open>--structure-all\<close>, a folder
  path and no \<^verbatim>\<open>--help-only\<close>, the script prints an error and exits with code 1,
  whatever the tree holds: the conflict message, or the message for a missing path when
  the path is the empty string.
\<close>

theorem conflicting_flags_exit_1:
  assumes "args_structure a" and "args_structure_all a" and "\<not> args_help_only a"
    and "args_folder_path a = Some p"
  shows "main e tree a =
     (if p = [] then ([''Error: folder_path is required unless --help-only is used.'', help_text e], Exit 1)
      else ([''Error: Cannot use --structure and --structure-all at the same time.''], Exit 1))"
  using assms by (simp add: main_def)

theorem conflicting_flags_exit_1_witness:
  "main example_env (Dir [(''a.txt'', File (Inr ''x''))])
     \<lparr>args_folder_path = Some ''root'', args_structure = True, args_structure_all = True, args_help_only = False\<rparr>
   = ([''Error: Cannot use --structure and --structure-all at the same time.''], Exit 1)"
  using conflicting_flags_exit_1 [of "\<lparr>args_folder_path = Some ''root'', args_structure = True, args_structure_all = True, args_help_only = False\<rparr>" "''root''" example_env "Dir [(''a.txt'', File (Inr ''x''))]"]
  by simp

text \<open>
  C8 as stated fails: with \<^verbatim>\<open>--help-only\<close> as well, the script prints the usage text
  and exits with code 0.
\<close>

theorem help_only_wins_over_conflict:
  "main example_env (Dir [])
     \<lparr>args_folder_path = Some ''root'', args_structure = True, args_structure_all = True, args_help_only = True\<rparr>
   = ([help_text example_env], Exit 0)"
  by (simp add: main_def)

text \<open>
  C9: under the script's own pattern list, an entry whose name ends in \<^verbatim>\<open>.sum\<close> is not
  ignored when no pattern other than the fused one matches its name or its path and the
  blacklist does not apply: the fused pattern asks for a dot after the end of the string
  and matches nothing.
\<close>

theorem checksum_files_not_ignored:
  assumes "suffix ''.sum'' name"
    and "\<forall>p \<in> set ignore_patterns. p \<noteq> fused_sum_pattern \<longrightarrow>
           re_match p name = Inr False \<and> re_match p path = Inr False"
    and "\<not> blacklisted e path blacklist"
  shows "should_ignore e name path ignore_patterns blacklist = Inr False"
proof -
  have "re_match p name = Inr False \<and> re_match p path = Inr False"
    if "p \<in> set ignore_patterns" for p
  proof (cases "p = fused_sum_pattern")
    case True
    then show ?thesis by (simp add: fused_sum_pattern_never_matches)
  next
    case False
    with assms(2) that show ?thesis by blast
  qed
  then have "any_pattern_matches ignore_patterns name path = Inr False"
    by (rule any_pattern_matches_none)
  with assms(3) show ?thesis
    by (simp add: should_ignore_def)
qed

theorem checksum_files_not_ignored_witness:
  "should_ignore example_env ''go.sum'' ''proj/go.sum'' ignore_patterns blacklist = Inr False"
proof -
  have ends: "suffix ''.sum'' ''go.sum''"
    by (simp add: suffix_def)
  have others: "\<forall>p \<in> set ignore_patterns. p \<noteq> fused_sum_pattern \<longrightarrow>
      re_match p ''go.sum'' = Inr False \<and> re_match p ''proj/go.sum'' = Inr False"
    by code_simp
  have free: "\<not> blacklisted example_env ''proj/go.sum'' blacklist"
    by code_simp
  show ?thesis
    by (rule checksum_files_not_ignored [OF ends others free])
qed


end
